theory Spec2Isabelle
  imports Complex_Main "HOL-Library.Multiset" "HOL-Library.Char_ord" "HOL-Library.List_Lexorder"
begin

section \<open>Values of the table widget\<close>

text \<open>
  The widget of \<^verbatim>\<open>src/index.tsx\<close> reads fields of rows typed \<^verbatim>\<open>any\<close>. The model covers
  the primitive values a row can hold: \<^verbatim>\<open>undefined\<close>, \<^verbatim>\<open>null\<close>, booleans, numbers and
  strings. Numbers are the integers, \<^verbatim>\<open>NaN\<close> and the two infinities (fractions are outside
  the model); strings are ASCII texts, a \<open>char\<close> standing for one code unit.
\<close>

datatype error = TypeError

datatype jsnum = Num int | NaN | PosInf | NegInf

datatype jsval = JUndefined | JNull | JBool bool | JNumber jsnum | JString string

text \<open>A row is an object literal: its fields in order, each name once. Reading an absent
  field gives \<^verbatim>\<open>undefined\<close>.\<close>

type_synonym row = "(string \<times> jsval) list"

definition get_field :: "row \<Rightarrow> string \<Rightarrow> jsval" where
  "get_field r k = (case map_of r k of None \<Rightarrow> JUndefined | Some v \<Rightarrow> v)"

text \<open>\<^verbatim>\<open>interface Column\<close>; \<^verbatim>\<open>sortable\<close> is optional there and absent counts as false.
  The \<^verbatim>\<open>render\<close> callback only draws a cell and is left to the presentation.\<close>

record column =
  header :: string
  accessor :: string
  sortable :: bool

datatype direction = Ascending | Descending

record sort_config =
  key :: string
  direction :: direction

text \<open>\<^verbatim>\<open>TableProps\<close>. \<^verbatim>\<open>pagination\<close> is the optional object \<^verbatim>\<open>{ pageSize: number }\<close>, here
  its number when present; the optional flags count as false when absent; \<^verbatim>\<open>theme\<close> is a
  class name for the presentation only.\<close>

record props =
  columns :: "column list"
  data :: "row list"
  pagination :: "jsnum option"
  sorting :: bool
  filtering :: bool

text \<open>The four \<^verbatim>\<open>useState\<close> cells (lines 21 to 24).\<close>

record state =
  currentPage :: jsnum
  searchTerm :: string
  pageSize :: jsnum
  sortConfig :: "sort_config option"

subsection \<open>The relational operators \<^verbatim>\<open><\<close> and \<^verbatim>\<open>>\<close> on primitives\<close>

text \<open>Number comparison: anything against \<^verbatim>\<open>NaN\<close> is false.\<close>

fun num_lt :: "jsnum \<Rightarrow> jsnum \<Rightarrow> bool" where
  "num_lt NaN b = False"
| "num_lt a NaN = False"
| "num_lt (Num a) (Num b) = (a < b)"
| "num_lt NegInf NegInf = False"
| "num_lt NegInf b = True"
| "num_lt a NegInf = False"
| "num_lt PosInf b = False"
| "num_lt a PosInf = True"

text \<open>\<^verbatim>\<open>ToNumber\<close>. The conversion of a string to a number (\<^verbatim>\<open>StringToNumber\<close>) is a
  parameter \<open>s2n\<close> of the model: every result below holds whatever it returns.\<close>

fun to_number :: "(string \<Rightarrow> jsnum) \<Rightarrow> jsval \<Rightarrow> jsnum" where
  "to_number s2n JUndefined = NaN"
| "to_number s2n JNull = Num 0"
| "to_number s2n (JBool b) = (if b then Num 1 else Num 0)"
| "to_number s2n (JNumber n) = n"
| "to_number s2n (JString s) = s2n s"

text \<open>\<^verbatim>\<open>a < b\<close>: two strings are compared code unit by code unit, anything else as
  numbers. \<^verbatim>\<open>a > b\<close> is the same comparison with the operands exchanged.\<close>

fun js_lt :: "(string \<Rightarrow> jsnum) \<Rightarrow> jsval \<Rightarrow> jsval \<Rightarrow> bool" where
  "js_lt s2n (JString x) (JString y) = (x < y)"
| "js_lt s2n a b = num_lt (to_number s2n a) (to_number s2n b)"

definition js_gt :: "(string \<Rightarrow> jsnum) \<Rightarrow> jsval \<Rightarrow> jsval \<Rightarrow> bool" where
  "js_gt s2n a b = js_lt s2n b a"

section \<open>The sort stage\<close>

text \<open>The comparator passed to \<^verbatim>\<open>sort\<close> (lines 39 to 47).\<close>

definition compare_rows :: "(string \<Rightarrow> jsnum) \<Rightarrow> sort_config \<Rightarrow> row \<Rightarrow> row \<Rightarrow> int" where
  "compare_rows s2n cfg a b =
     (if js_lt s2n (get_field a (key cfg)) (get_field b (key cfg))
      then (if direction cfg = Ascending then - 1 else 1)
      else if js_gt s2n (get_field a (key cfg)) (get_field b (key cfg))
      then (if direction cfg = Ascending then 1 else - 1)
      else 0)"

text \<open>
  \<^verbatim>\<open>Array.prototype.sort\<close> with a comparator. ECMAScript requires a stable sort, which fixes
  the result whenever the comparator is a consistent one; otherwise (rows without the key,
  \<^verbatim>\<open>NaN\<close>, values of mixed types) the order is left to the implementation. The model is
  the stable insertion sort: an element moves behind exactly the elements the comparator
  puts before it. It is the array of every engine where the comparator is consistent
  (\<open>sortedData_unique\<close> below), and only there; what is said of the order of the sorted
  rows is said under \<open>consistent_order\<close>.
\<close>

fun insert_sorted :: "('a \<Rightarrow> 'a \<Rightarrow> int) \<Rightarrow> 'a \<Rightarrow> 'a list \<Rightarrow> 'a list" where
  "insert_sorted cmp x [] = [x]"
| "insert_sorted cmp x (y # ys) =
     (if cmp x y > 0 then y # insert_sorted cmp x ys else x # y # ys)"

fun array_sort :: "('a \<Rightarrow> 'a \<Rightarrow> int) \<Rightarrow> 'a list \<Rightarrow> 'a list" where
  "array_sort cmp [] = []"
| "array_sort cmp (x # xs) = insert_sorted cmp x (array_sort cmp xs)"

text \<open>\<^verbatim>\<open>sortedData\<close> (lines 36 to 48): the rows of \<^verbatim>\<open>data\<close> themselves, or a sorted copy.\<close>

definition sortedData :: "(string \<Rightarrow> jsnum) \<Rightarrow> props \<Rightarrow> state \<Rightarrow> row list" where
  "sortedData s2n p st =
     (if \<not> sorting p \<or> sortConfig st = None then data p
      else array_sort (compare_rows s2n (the (sortConfig st))) (data p))"

text \<open>The comparison of the values at key \<open>k\<close> is a consistent one on the rows: a value
  lying, by \<^verbatim>\<open><\<close>, neither before nor after a second one lies wherever the second lies
  against any third. This is the case where ECMAScript fixes the order of the sorted
  array; columns of strings only, or of numbers other than \<^verbatim>\<open>NaN\<close> only, are such.\<close>

definition consistent_order :: "(string \<Rightarrow> jsnum) \<Rightarrow> string \<Rightarrow> row list \<Rightarrow> bool" where
  "consistent_order s2n k rows =
     (\<forall>a \<in> set rows. \<forall>b \<in> set rows. \<forall>c \<in> set rows.
        js_lt s2n (get_field a k) (get_field c k) \<longrightarrow>
          js_lt s2n (get_field a k) (get_field b k) \<or> js_lt s2n (get_field b k) (get_field c k))"






section \<open>The filter stage\<close>

text \<open>\<^verbatim>\<open>Number.prototype.toString\<close> on the numbers of the model: decimal digits.\<close>

fun digits :: "nat \<Rightarrow> string" where
  "digits n =
     (if n < 10 then [char_of (48 + n)]
      else digits (n div 10) @ [char_of (48 + n mod 10)])"

declare digits.simps [simp del]

fun num_to_string :: "jsnum \<Rightarrow> string" where
  "num_to_string NaN = ''NaN''"
| "num_to_string PosInf = ''Infinity''"
| "num_to_string NegInf = ''-Infinity''"
| "num_to_string (Num n) = (if n < 0 then CHR ''-'' # digits (nat (- n)) else digits (nat n))"

text \<open>\<^verbatim>\<open>v.toString()\<close>: a property read on \<^verbatim>\<open>undefined\<close> or \<^verbatim>\<open>null\<close> throws a
  \<^verbatim>\<open>TypeError\<close>.\<close>

fun toString :: "jsval \<Rightarrow> error + string" where
  "toString JUndefined = Inl TypeError"
| "toString JNull = Inl TypeError"
| "toString (JBool b) = Inr (if b then ''true'' else ''false'')"
| "toString (JNumber n) = Inr (num_to_string n)"
| "toString (JString s) = Inr s"

definition lower_char :: "char \<Rightarrow> char" where
  "lower_char c =
     (if CHR ''A'' \<le> c \<and> c \<le> CHR ''Z'' then char_of (of_char c + (32 :: nat)) else c)"

definition toLowerCase :: "string \<Rightarrow> string" where
  "toLowerCase s = map lower_char s"

text \<open>\<^verbatim>\<open>s.includes(t)\<close>: \<open>t\<close> starts at some position of \<open>s\<close>.\<close>

fun str_includes :: "string \<Rightarrow> string \<Rightarrow> bool" where
  "str_includes [] t = (t = [])"
| "str_includes (c # s) t = (take (length t) (c # s) = t \<or> str_includes s t)"

text \<open>\<^verbatim>\<open>Array.prototype.some\<close> and \<^verbatim>\<open>Array.prototype.filter\<close> with a callback that may
  throw: the elements are visited in order, \<^verbatim>\<open>some\<close> stops at the first hit, and an
  exception of the callback ends the whole call.\<close>

fun array_some :: "('a \<Rightarrow> error + bool) \<Rightarrow> 'a list \<Rightarrow> error + bool" where
  "array_some f [] = Inr False"
| "array_some f (x # xs) =
     (case f x of Inl e \<Rightarrow> Inl e | Inr b \<Rightarrow> if b then Inr True else array_some f xs)"

fun array_filter :: "('a \<Rightarrow> error + bool) \<Rightarrow> 'a list \<Rightarrow> error + 'a list" where
  "array_filter f [] = Inr []"
| "array_filter f (x # xs) =
     (case f x of
        Inl e \<Rightarrow> Inl e
      | Inr b \<Rightarrow> (case array_filter f xs of
                   Inl e \<Rightarrow> Inl e
                 | Inr ys \<Rightarrow> Inr (if b then x # ys else ys)))"

text \<open>The callback of \<^verbatim>\<open>some\<close> at line 54.\<close>

definition column_matches :: "string \<Rightarrow> row \<Rightarrow> column \<Rightarrow> error + bool" where
  "column_matches term r c =
     (case toString (get_field r (accessor c)) of
        Inl e \<Rightarrow> Inl e
      | Inr s \<Rightarrow> Inr (str_includes (toLowerCase s) (toLowerCase term)))"

text \<open>\<^verbatim>\<open>filteredData\<close> (lines 50 to 56); the empty string is the falsy search term.\<close>

definition filteredData :: "(string \<Rightarrow> jsnum) \<Rightarrow> props \<Rightarrow> state \<Rightarrow> error + row list" where
  "filteredData s2n p st =
     (if \<not> filtering p \<or> searchTerm st = [] then Inr (sortedData s2n p st)
      else array_filter (\<lambda>r. array_some (column_matches (searchTerm st) r) (columns p))
             (sortedData s2n p st))"

text \<open>The filter stage in the words of its description: a row is kept iff some column's
  value, as lowercased text, contains the lowercased search term; a value without a text
  matches nothing.\<close>

definition spec_row_kept :: "column list \<Rightarrow> string \<Rightarrow> row \<Rightarrow> bool" where
  "spec_row_kept cols term r =
     (\<exists>c \<in> set cols. case toString (get_field r (accessor c)) of
                       Inl e \<Rightarrow> False
                     | Inr s \<Rightarrow> str_includes (toLowerCase s) (toLowerCase term))"

section \<open>Numbers of the page arithmetic\<close>

text \<open>Both zeros of the number type are the one \<open>Num 0\<close>.\<close>

fun num_neg :: "jsnum \<Rightarrow> jsnum" where
  "num_neg (Num n) = Num (- n)"
| "num_neg NaN = NaN"
| "num_neg PosInf = NegInf"
| "num_neg NegInf = PosInf"

fun num_add :: "jsnum \<Rightarrow> jsnum \<Rightarrow> jsnum" where
  "num_add NaN b = NaN"
| "num_add a NaN = NaN"
| "num_add (Num a) (Num b) = Num (a + b)"
| "num_add PosInf NegInf = NaN"
| "num_add NegInf PosInf = NaN"
| "num_add PosInf b = PosInf"
| "num_add a PosInf = PosInf"
| "num_add NegInf b = NegInf"
| "num_add a NegInf = NegInf"

definition num_sub :: "jsnum \<Rightarrow> jsnum \<Rightarrow> jsnum" where
  "num_sub a b = num_add a (num_neg b)"

fun num_sgn :: "jsnum \<Rightarrow> int" where
  "num_sgn (Num n) = sgn n"
| "num_sgn NaN = 0"
| "num_sgn PosInf = 1"
| "num_sgn NegInf = - 1"

fun num_mul :: "jsnum \<Rightarrow> jsnum \<Rightarrow> jsnum" where
  "num_mul NaN b = NaN"
| "num_mul a NaN = NaN"
| "num_mul (Num a) (Num b) = Num (a * b)"
| "num_mul a b =
     (if num_sgn a * num_sgn b = 0 then NaN
      else if num_sgn a * num_sgn b > 0 then PosInf else NegInf)"

text \<open>\<^verbatim>\<open>Math.ceil(n / d)\<close> for an integer \<open>n\<close>. For array lengths and integer divisors the
  rounded quotient of the doubles has the ceiling of the exact one.\<close>

fun ceil_quot :: "int \<Rightarrow> jsnum \<Rightarrow> jsnum" where
  "ceil_quot n NaN = NaN"
| "ceil_quot n PosInf = Num 0"
| "ceil_quot n NegInf = Num 0"
| "ceil_quot n (Num d) =
     (if d = 0 then (if n = 0 then NaN else if 0 < n then PosInf else NegInf)
      else Num (- ((- n) div d)))"

text \<open>\<^verbatim>\<open>Math.max\<close>, \<^verbatim>\<open>Math.min\<close> and \<^verbatim>\<open>===\<close> on numbers.\<close>

definition num_max :: "jsnum \<Rightarrow> jsnum \<Rightarrow> jsnum" where
  "num_max a b = (if a = NaN \<or> b = NaN then NaN else if num_lt a b then b else a)"

definition num_min :: "jsnum \<Rightarrow> jsnum \<Rightarrow> jsnum" where
  "num_min a b = (if a = NaN \<or> b = NaN then NaN else if num_lt b a then b else a)"

definition num_eq :: "jsnum \<Rightarrow> jsnum \<Rightarrow> bool" where
  "num_eq a b = (a \<noteq> NaN \<and> a = b)"

definition falsy_num :: "jsnum \<Rightarrow> bool" where
  "falsy_num n = (n = Num 0 \<or> n = NaN)"

section \<open>The paginate stage\<close>

text \<open>\<^verbatim>\<open>Array.prototype.slice(start, end)\<close>: an index is made an integer (\<^verbatim>\<open>NaN\<close> is 0),
  a negative one counts from the end, and both are clipped to the length.\<close>

fun slice_index :: "nat \<Rightarrow> jsnum \<Rightarrow> nat" where
  "slice_index len NaN = 0"
| "slice_index len NegInf = 0"
| "slice_index len PosInf = len"
| "slice_index len (Num n) =
     (if n < 0 then nat (max (int len + n) 0) else nat (min n (int len)))"

definition array_slice :: "'a list \<Rightarrow> jsnum \<Rightarrow> jsnum \<Rightarrow> 'a list" where
  "array_slice xs s e =
     take (slice_index (length xs) e - slice_index (length xs) s)
          (drop (slice_index (length xs) s) xs)"

text \<open>\<^verbatim>\<open>paginatedData\<close> (lines 58 to 61) and \<^verbatim>\<open>totalPages\<close> (line 71).\<close>

definition startIndex :: "state \<Rightarrow> jsnum" where
  "startIndex st = num_mul (num_sub (currentPage st) (Num 1)) (pageSize st)"

definition paginatedData :: "(string \<Rightarrow> jsnum) \<Rightarrow> props \<Rightarrow> state \<Rightarrow> error + row list" where
  "paginatedData s2n p st =
     (case filteredData s2n p st of
        Inl e \<Rightarrow> Inl e
      | Inr fd \<Rightarrow> Inr (array_slice fd (startIndex st) (num_add (startIndex st) (pageSize st))))"

definition totalPages :: "(string \<Rightarrow> jsnum) \<Rightarrow> props \<Rightarrow> state \<Rightarrow> error + jsnum" where
  "totalPages s2n p st =
     (case filteredData s2n p st of
        Inl e \<Rightarrow> Inl e
      | Inr fd \<Rightarrow> Inr (ceil_quot (int (length fd)) (pageSize st)))"

text \<open>The rows shown on page \<open>c\<close>: \<^verbatim>\<open>paginatedData\<close> with \<open>c\<close> as the current page.\<close>

definition page_rows :: "(string \<Rightarrow> jsnum) \<Rightarrow> props \<Rightarrow> state \<Rightarrow> int \<Rightarrow> row list" where
  "page_rows s2n p st c =
     (case paginatedData s2n p (st\<lparr>currentPage := Num c\<rparr>) of Inl e \<Rightarrow> [] | Inr pg \<Rightarrow> pg)"

section \<open>State and interaction handlers\<close>

text \<open>The initial values of the state cells; \<^verbatim>\<open>pagination?.pageSize || 10\<close>.\<close>

definition initial_pageSize :: "jsnum option \<Rightarrow> jsnum" where
  "initial_pageSize pg =
     (case pg of None \<Rightarrow> Num 10 | Some n \<Rightarrow> if falsy_num n then Num 10 else n)"

definition initial_state :: "props \<Rightarrow> state" where
  "initial_state p =
     \<lparr>currentPage = Num 1, searchTerm = [], pageSize = initial_pageSize (pagination p),
      sortConfig = None\<rparr>"

text \<open>\<^verbatim>\<open>handleSearch\<close> and \<^verbatim>\<open>handlePageSizeChange\<close> (lines 26 to 34). The argument is
  \<^verbatim>\<open>event.target.value\<close>, for the page size after \<^verbatim>\<open>Number(...)\<close>.\<close>

definition handleSearch :: "string \<Rightarrow> state \<Rightarrow> state" where
  "handleSearch v st = st\<lparr>searchTerm := v, currentPage := Num 1\<rparr>"

definition handlePageSizeChange :: "jsnum \<Rightarrow> state \<Rightarrow> state" where
  "handlePageSizeChange n st = st\<lparr>pageSize := n, currentPage := Num 1\<rparr>"

text \<open>\<^verbatim>\<open>handleSort\<close> (lines 63 to 69) and the \<^verbatim>\<open>onClick\<close> of a header cell (line 96).\<close>

definition handleSort :: "string \<Rightarrow> state \<Rightarrow> state" where
  "handleSort k st =
     st\<lparr>sortConfig := Some \<lparr>key = k, direction =
        (case sortConfig st of
           None \<Rightarrow> Ascending
         | Some cfg \<Rightarrow> if key cfg = k \<and> direction cfg = Ascending then Descending
                       else Ascending)\<rparr>\<rparr>"

definition header_click :: "props \<Rightarrow> column \<Rightarrow> state \<Rightarrow> state" where
  "header_click p c st = (if sorting p \<and> sortable c then handleSort (accessor c) st else st)"

text \<open>The two pagination buttons (lines 122 to 133): the state update of \<^verbatim>\<open>onClick\<close> and the
  \<^verbatim>\<open>disabled\<close> attribute; \<open>tp\<close> is the \<^verbatim>\<open>totalPages\<close> of the render. A disabled button
  delivers no click.\<close>

definition previous_onClick :: "state \<Rightarrow> state" where
  "previous_onClick st =
     st\<lparr>currentPage := num_max (num_sub (currentPage st) (Num 1)) (Num 1)\<rparr>"

definition previous_disabled :: "state \<Rightarrow> bool" where
  "previous_disabled st = num_eq (currentPage st) (Num 1)"

definition next_onClick :: "jsnum \<Rightarrow> state \<Rightarrow> state" where
  "next_onClick tp st =
     st\<lparr>currentPage := num_min (num_add (currentPage st) (Num 1)) tp\<rparr>"

definition next_disabled :: "jsnum \<Rightarrow> state \<Rightarrow> bool" where
  "next_disabled tp st = num_eq (currentPage st) tp"

definition press_previous :: "state \<Rightarrow> state" where
  "press_previous st = (if previous_disabled st then st else previous_onClick st)"

definition press_next :: "jsnum \<Rightarrow> state \<Rightarrow> state" where
  "press_next tp st = (if next_disabled tp st then st else next_onClick tp st)"

text \<open>The events of a mounted widget. The search box and the page size selector exist
  only with \<^verbatim>\<open>filtering\<close>; a header click names the index of its column. A render that
  throws leaves no widget to interact with.\<close>

datatype event =
  Search string | PageSizeChange jsnum | HeaderClick nat | Previous | Next

definition dispatch :: "(string \<Rightarrow> jsnum) \<Rightarrow> props \<Rightarrow> event \<Rightarrow> state \<Rightarrow> error + state" where
  "dispatch s2n p ev st =
     (case totalPages s2n p st of
        Inl e \<Rightarrow> Inl e
      | Inr tp \<Rightarrow> Inr
         (case ev of
            Search v \<Rightarrow> if filtering p then handleSearch v st else st
          | PageSizeChange n \<Rightarrow> if filtering p then handlePageSizeChange n st else st
          | HeaderClick i \<Rightarrow>
              if i < length (columns p) then header_click p (columns p ! i) st else st
          | Previous \<Rightarrow> press_previous st
          | Next \<Rightarrow> press_next tp st))"

fun run :: "(string \<Rightarrow> jsnum) \<Rightarrow> props \<Rightarrow> event list \<Rightarrow> state \<Rightarrow> error + state" where
  "run s2n p [] st = Inr st"
| "run s2n p (ev # evs) st =
     (case dispatch s2n p ev st of Inl e \<Rightarrow> Inl e | Inr st' \<Rightarrow> run s2n p evs st')"

text \<open>A page size that is a positive integer. The selector of line 84 offers 5, 10, 25
  and 50; an event of the widget is well formed when its page size is such a number.\<close>

definition positive_int :: "jsnum \<Rightarrow> bool" where
  "positive_int n = (case n of Num k \<Rightarrow> 0 < k | _ \<Rightarrow> False)"

definition wf_event :: "event \<Rightarrow> bool" where
  "wf_event ev = (case ev of PageSizeChange n \<Rightarrow> positive_int n | _ \<Rightarrow> True)"

text \<open>What the handlers keep true of the current page: with filtered rows it lies between
  1 and the number of pages, without any it is 0 or 1.\<close>

definition page_invariant :: "(string \<Rightarrow> jsnum) \<Rightarrow> props \<Rightarrow> state \<Rightarrow> bool" where
  "page_invariant s2n p st =
     (\<exists>ps c. pageSize st = Num ps \<and> 0 < ps \<and> currentPage st = Num c \<and>
        (\<forall>fd. filteredData s2n p st = Inr fd \<longrightarrow>
           (if fd = [] then c = 0 \<or> c = 1
            else 1 \<le> c \<and> c \<le> - ((- int (length fd)) div ps))))"

section \<open>The scenarios of the specification\<close>

definition name_column :: column where
  "name_column = \<lparr>header = ''Name'', accessor = ''name'', sortable = True\<rparr>"

definition named :: "string \<Rightarrow> row" where
  "named s = [(''name'', JString s)]"

definition sort_scenario :: props where
  "sort_scenario =
     \<lparr>columns = [name_column], data = [named ''Bob'', named ''Amy'', named ''Cid''],
      pagination = None, sorting = True, filtering = False\<rparr>"

definition filter_scenario :: props where
  "filter_scenario =
     \<lparr>columns = [name_column], data = [named ''Amy'', named ''Bob''],
      pagination = None, sorting = False, filtering = True\<rparr>"

definition page_scenario :: props where
  "page_scenario =
     \<lparr>columns = [name_column],
      data = [named ''a'', named ''b'', named ''c'', named ''d'', named ''e''],
      pagination = Some (Num 2), sorting = False, filtering = False\<rparr>"

text \<open>Three rows of which the first and the last share their name.\<close>

definition tie_scenario :: props where
  "tie_scenario =
     \<lparr>columns = [name_column],
      data = [[(''name'', JString ''b''), (''id'', JNumber (Num 1))],
              [(''name'', JString ''a''), (''id'', JNumber (Num 2))],
              [(''name'', JString ''b''), (''id'', JNumber (Num 3))]],
      pagination = None, sorting = True, filtering = False\<rparr>"

text \<open>Three rows of which the second has no field \<^verbatim>\<open>v\<close>.\<close>

definition gap_rows :: "row list" where
  "gap_rows = [[(''v'', JNumber (Num 1))], [(''id'', JNumber (Num 7))], [(''v'', JNumber (Num 0))]]"

text \<open>A string never converts to a number here: the scenarios compare strings with
  strings only.\<close>

definition no_number :: "string \<Rightarrow> jsnum" where
  "no_number s = NaN"

section \<open>Evaluation and frame equations\<close>

text \<open>The equations that evaluate the widget on a concrete input.\<close>

lemmas eval_defs = sortedData_def filteredData_def paginatedData_def totalPages_def
  startIndex_def initial_state_def initial_pageSize_def falsy_num_def handleSearch_def
  handlePageSizeChange_def handleSort_def header_click_def previous_onClick_def
  previous_disabled_def next_onClick_def next_disabled_def press_previous_def press_next_def
  dispatch_def compare_rows_def get_field_def js_gt_def column_matches_def toLowerCase_def
  lower_char_def array_slice_def num_sub_def num_max_def num_min_def num_eq_def
  name_column_def named_def sort_scenario_def filter_scenario_def page_scenario_def
  tie_scenario_def no_number_def char_of_def bit_0

text \<open>The sorted rows, the filtered rows and the number of pages do not depend on the
  current page.\<close>

lemma sortedData_currentPage [simp]:
  "sortedData s2n p (st\<lparr>currentPage := x\<rparr>) = sortedData s2n p st"
  by (simp add: sortedData_def)

lemma filteredData_currentPage [simp]:
  "filteredData s2n p (st\<lparr>currentPage := x\<rparr>) = filteredData s2n p st"
  by (simp add: filteredData_def)

lemma totalPages_currentPage [simp]:
  "totalPages s2n p (st\<lparr>currentPage := x\<rparr>) = totalPages s2n p st"
  by (simp add: totalPages_def split: sum.splits)

section \<open>Properties of the comparison\<close>







section \<open>What the handlers set\<close>

text \<open>
  C9. For every prior state, the search handler sets the search term and the page size
  handler sets the page size, and each of them sets the current page to 1, whatever it
  was before.
\<close>

theorem handlers_reset_currentPage:
  "currentPage (handleSearch v st) = Num 1 \<and> searchTerm (handleSearch v st) = v \<and>
   currentPage (handlePageSizeChange n st) = Num 1 \<and>
   pageSize (handlePageSizeChange n st) = n"
  by (simp add: handleSearch_def handlePageSizeChange_def)

text \<open>
  C10. The initial page size is the configured \<^verbatim>\<open>pagination.pageSize\<close> only when that is
  truthy: without the \<^verbatim>\<open>pagination\<close> prop, or with a page size of 0 or \<^verbatim>\<open>NaN\<close> (the falsy
  numbers), the widget starts with 10.
\<close>

theorem initial_pageSize_truthy:
  "(pagination p = None \<longrightarrow> pageSize (initial_state p) = Num 10) \<and>
   (pagination p = Some (Num 0) \<longrightarrow> pageSize (initial_state p) = Num 10) \<and>
   (pagination p = Some NaN \<longrightarrow> pageSize (initial_state p) = Num 10) \<and>
   (\<forall>n. pagination p = Some n \<and> n \<noteq> Num 0 \<and> n \<noteq> NaN
        \<longrightarrow> pageSize (initial_state p) = n)"
  by (simp add: initial_state_def initial_pageSize_def falsy_num_def)

theorem initial_pageSize_truthy_witness:
  "pageSize (initial_state sort_scenario) = Num 10 \<and>
   pageSize (initial_state (page_scenario\<lparr>pagination := Some (Num 0)\<rparr>)) = Num 10 \<and>
   pageSize (initial_state (page_scenario\<lparr>pagination := Some NaN\<rparr>)) = Num 10 \<and>
   pageSize (initial_state page_scenario) = Num 2"
  using initial_pageSize_truthy [of sort_scenario]
    initial_pageSize_truthy [of "page_scenario\<lparr>pagination := Some (Num 0)\<rparr>"]
    initial_pageSize_truthy [of "page_scenario\<lparr>pagination := Some NaN\<rparr>"]
    initial_pageSize_truthy [of page_scenario]
  by (simp add: sort_scenario_def page_scenario_def)

subsection \<open>The sort toggle\<close>

lemma sortConfig_handleSort: "sortConfig (handleSort k st) \<noteq> None"
  by (simp add: handleSort_def)

lemma sortConfig_header_click:
  "sortConfig st \<noteq> None \<Longrightarrow> sortConfig (header_click p c st) \<noteq> None"
  by (auto simp: header_click_def handleSort_def)

lemma sortConfig_header_clicks:
  "sorting p \<Longrightarrow> sortable c \<Longrightarrow> sortConfig (((header_click p c) ^^ Suc n) st) \<noteq> None"
  by (simp add: header_click_def sortConfig_handleSort)

lemma sortConfig_dispatch:
  "dispatch s2n p ev st = Inr st' \<Longrightarrow> sortConfig st \<noteq> None \<Longrightarrow> sortConfig st' \<noteq> None"
  using sortConfig_header_click [of st p]
  by (cases ev)
     (auto simp: dispatch_def handleSearch_def handlePageSizeChange_def press_previous_def
        press_next_def previous_onClick_def next_onClick_def
        split: sum.splits if_splits)

lemma sortConfig_run:
  "run s2n p evs st = Inr st' \<Longrightarrow> sortConfig st \<noteq> None \<Longrightarrow> sortConfig st' \<noteq> None"
proof (induction evs arbitrary: st)
  case Nil
  then show ?case by simp
next
  case (Cons ev evs)
  from Cons.prems(1) obtain st1 where
    d: "dispatch s2n p ev st = Inr st1" and r: "run s2n p evs st1 = Inr st'"
    by (auto split: sum.splits)
  from d Cons.prems(2) have "sortConfig st1 \<noteq> None" by (rule sortConfig_dispatch)
  with r show ?case by (rule Cons.IH)
qed

text \<open>
  C5. Activating a column header is a two-state toggle. A click on the header of a column
  does nothing unless sorting is enabled and the column is sortable, and is
  \<^verbatim>\<open>handleSort\<close> on its accessor otherwise. \<^verbatim>\<open>handleSort\<close> on key \<open>k\<close>: from no sort, or from
  a sort on another key, to \<open>k\<close> ascending; from \<open>k\<close> ascending to \<open>k\<close> descending; from \<open>k\<close>
  descending to \<open>k\<close> ascending. After one or more activations of a sortable column a sort
  is set, and once a sort is set no sequence of events of the widget returns to no sort.
\<close>

theorem handleSort_two_state_toggle:
  "(sortConfig st = None \<or> (\<exists>cfg. sortConfig st = Some cfg \<and> key cfg \<noteq> k)
      \<longrightarrow> sortConfig (handleSort k st) = Some \<lparr>key = k, direction = Ascending\<rparr>) \<and>
   (sortConfig st = Some \<lparr>key = k, direction = Ascending\<rparr>
      \<longrightarrow> sortConfig (handleSort k st) = Some \<lparr>key = k, direction = Descending\<rparr>) \<and>
   (sortConfig st = Some \<lparr>key = k, direction = Descending\<rparr>
      \<longrightarrow> sortConfig (handleSort k st) = Some \<lparr>key = k, direction = Ascending\<rparr>) \<and>
   (sorting p \<and> sortable c \<longrightarrow> header_click p c st = handleSort (accessor c) st) \<and>
   (\<not> (sorting p \<and> sortable c) \<longrightarrow> header_click p c st = st) \<and>
   (sorting p \<and> sortable c
      \<longrightarrow> (\<forall>n. sortConfig (((header_click p c) ^^ Suc n) st) \<noteq> None)) \<and>
   (\<forall>evs st'. sortConfig st \<noteq> None \<and> run s2n p evs st = Inr st'
      \<longrightarrow> sortConfig st' \<noteq> None)"
proof (intro conjI)
  show "sortConfig st = None \<or> (\<exists>cfg. sortConfig st = Some cfg \<and> key cfg \<noteq> k)
      \<longrightarrow> sortConfig (handleSort k st) = Some \<lparr>key = k, direction = Ascending\<rparr>"
    by (auto simp: handleSort_def)
  show "sortConfig st = Some \<lparr>key = k, direction = Ascending\<rparr>
      \<longrightarrow> sortConfig (handleSort k st) = Some \<lparr>key = k, direction = Descending\<rparr>"
    by (simp add: handleSort_def)
  show "sortConfig st = Some \<lparr>key = k, direction = Descending\<rparr>
      \<longrightarrow> sortConfig (handleSort k st) = Some \<lparr>key = k, direction = Ascending\<rparr>"
    by (simp add: handleSort_def)
  show "sorting p \<and> sortable c \<longrightarrow> header_click p c st = handleSort (accessor c) st"
    by (simp add: header_click_def)
  show "\<not> (sorting p \<and> sortable c) \<longrightarrow> header_click p c st = st"
    by (simp add: header_click_def)
  show "sorting p \<and> sortable c
      \<longrightarrow> (\<forall>n. sortConfig (((header_click p c) ^^ Suc n) st) \<noteq> None)"
    using sortConfig_header_clicks by blast
  show "\<forall>evs st'. sortConfig st \<noteq> None \<and> run s2n p evs st = Inr st'
      \<longrightarrow> sortConfig st' \<noteq> None"
    using sortConfig_run by blast
qed

text \<open>The toggle on the name column of the sort scenario.\<close>

theorem handleSort_two_state_toggle_witness:
  "sortConfig (handleSort ''name'' (initial_state sort_scenario))
     = Some \<lparr>key = ''name'', direction = Ascending\<rparr> \<and>
   sortConfig (handleSort ''name'' (handleSort ''name'' (initial_state sort_scenario)))
     = Some \<lparr>key = ''name'', direction = Descending\<rparr> \<and>
   sortConfig (handleSort ''name''
       (handleSort ''name'' (handleSort ''name'' (initial_state sort_scenario))))
     = Some \<lparr>key = ''name'', direction = Ascending\<rparr> \<and>
   header_click sort_scenario name_column (initial_state sort_scenario)
     = handleSort ''name'' (initial_state sort_scenario) \<and>
   header_click filter_scenario name_column (initial_state filter_scenario)
     = initial_state filter_scenario \<and>
   sortConfig (((header_click sort_scenario name_column) ^^ Suc 1)
       (initial_state sort_scenario)) \<noteq> None \<and>
   run no_number sort_scenario [HeaderClick 0, Next]
       (handleSort ''name'' (initial_state sort_scenario))
     = Inr \<lparr>currentPage = Num 1, searchTerm = [], pageSize = Num 10,
            sortConfig = Some \<lparr>key = ''name'', direction = Descending\<rparr>\<rparr>"
proof -
  let ?s0 = "initial_state sort_scenario"
  let ?s1 = "handleSort ''name'' ?s0"
  let ?s2 = "handleSort ''name'' ?s1"
  have r: "run no_number sort_scenario [HeaderClick 0, Next] ?s1
     = Inr \<lparr>currentPage = Num 1, searchTerm = [], pageSize = Num 10,
            sortConfig = Some \<lparr>key = ''name'', direction = Descending\<rparr>\<rparr>"
    by (simp add: eval_defs)
  from handleSort_two_state_toggle [of ?s0 "''name''" sort_scenario name_column no_number]
    handleSort_two_state_toggle [of ?s1 "''name''" sort_scenario name_column no_number]
    handleSort_two_state_toggle [of ?s2 "''name''" filter_scenario name_column no_number]
    r
  show ?thesis
    by (simp add: eval_defs)
qed

subsection \<open>The pagination buttons\<close>

lemma press_previous_Num:
  "currentPage st = Num c \<Longrightarrow> press_previous st = st\<lparr>currentPage := Num (max (c - 1) 1)\<rparr>"
  by (cases "c = 1")
     (auto simp: press_previous_def previous_disabled_def previous_onClick_def num_eq_def
        num_sub_def num_max_def max_def)

lemma press_next_Num:
  "currentPage st = Num c \<Longrightarrow>
   press_next (Num t) st = (if c = t then st else st\<lparr>currentPage := Num (min (c + 1) t)\<rparr>)"
  by (auto simp: press_next_def next_disabled_def next_onClick_def num_eq_def num_min_def
        min_def)

text \<open>
  What the two buttons do. With the current page \<open>c\<close> and \<open>t\<close> total pages: "Previous" sets
  the page to \<open>max (c - 1) 1\<close> and is disabled exactly when \<open>c = 1\<close>, where it changes
  nothing; "Next" sets the page to \<open>min (c + 1) t\<close> and is disabled exactly when \<open>c = t\<close>,
  where it changes nothing. From a page within \<open>[1, t]\<close> either button leads to a page within
  \<open>[1, t]\<close>, and the number of pages stays \<open>t\<close>.
\<close>

lemma pagination_buttons:
  assumes c: "currentPage st = Num c" and t: "totalPages s2n p st = Inr (Num t)"
  shows "currentPage (previous_onClick st) = Num (max (c - 1) 1) \<and>
     (previous_disabled st \<longleftrightarrow> c = 1) \<and>
     dispatch s2n p Previous st = Inr (if c = 1 then st else previous_onClick st) \<and>
     currentPage (next_onClick (Num t) st) = Num (min (c + 1) t) \<and>
     (next_disabled (Num t) st \<longleftrightarrow> c = t) \<and>
     dispatch s2n p Next st = Inr (if c = t then st else next_onClick (Num t) st) \<and>
     (1 \<le> c \<and> c \<le> t \<longrightarrow>
        (\<forall>ev \<in> {Previous, Next}. \<exists>st' c'. dispatch s2n p ev st = Inr st' \<and>
            totalPages s2n p st' = Inr (Num t) \<and>
            currentPage st' = Num c' \<and> 1 \<le> c' \<and> c' \<le> t))"
proof (intro conjI)
  show "currentPage (previous_onClick st) = Num (max (c - 1) 1)"
    using c by (auto simp: previous_onClick_def num_sub_def num_max_def max_def)
  show "previous_disabled st \<longleftrightarrow> c = 1"
    using c by (simp add: previous_disabled_def num_eq_def)
  show "dispatch s2n p Previous st = Inr (if c = 1 then st else previous_onClick st)"
    using c t by (simp add: dispatch_def press_previous_def previous_disabled_def num_eq_def)
  show "currentPage (next_onClick (Num t) st) = Num (min (c + 1) t)"
    using c by (auto simp: next_onClick_def num_min_def min_def)
  show "next_disabled (Num t) st \<longleftrightarrow> c = t"
    using c by (simp add: next_disabled_def num_eq_def)
  show "dispatch s2n p Next st = Inr (if c = t then st else next_onClick (Num t) st)"
    using c t by (simp add: dispatch_def press_next_def next_disabled_def num_eq_def)
  show "1 \<le> c \<and> c \<le> t \<longrightarrow>
        (\<forall>ev \<in> {Previous, Next}. \<exists>st' c'. dispatch s2n p ev st = Inr st' \<and>
            totalPages s2n p st' = Inr (Num t) \<and>
            currentPage st' = Num c' \<and> 1 \<le> c' \<and> c' \<le> t)"
    using c t by (auto simp: dispatch_def press_previous_Num press_next_Num)
qed

text \<open>The scenario with page size 2 and five rows: three pages, on page 3 one row and
  "Next" disabled.\<close>

lemma page_scenario_last_page:
  "totalPages no_number page_scenario (initial_state page_scenario) = Inr (Num 3) \<and>
   dispatch no_number page_scenario Previous (initial_state page_scenario)
     = Inr (initial_state page_scenario) \<and>
   run no_number page_scenario [Next, Next] (initial_state page_scenario)
     = Inr ((initial_state page_scenario)\<lparr>currentPage := Num 3\<rparr>) \<and>
   next_disabled (Num 3) ((initial_state page_scenario)\<lparr>currentPage := Num 3\<rparr>) \<and>
   dispatch no_number page_scenario Next ((initial_state page_scenario)\<lparr>currentPage := Num 3\<rparr>)
     = Inr ((initial_state page_scenario)\<lparr>currentPage := Num 3\<rparr>) \<and>
   dispatch no_number page_scenario Previous ((initial_state page_scenario)\<lparr>currentPage := Num 3\<rparr>)
     = Inr ((initial_state page_scenario)\<lparr>currentPage := Num 2\<rparr>) \<and>
   paginatedData no_number page_scenario ((initial_state page_scenario)\<lparr>currentPage := Num 3\<rparr>)
     = Inr [named ''e'']"
proof -
  let ?s1 = "initial_state page_scenario"
  let ?s3 = "?s1\<lparr>currentPage := Num 3\<rparr>"
  have t: "totalPages no_number page_scenario ?s1 = Inr (Num 3)"
    by (simp add: eval_defs)
  have c1: "currentPage ?s1 = Num 1" by (simp add: initial_state_def)
  have c3: "currentPage ?s3 = Num 3" by simp
  have t3: "totalPages no_number page_scenario ?s3 = Inr (Num 3)"
    using t by simp
  have pd: "paginatedData no_number page_scenario ?s3 = Inr [named ''e'']"
    by (simp add: eval_defs)
  have r: "run no_number page_scenario [Next, Next] ?s1 = Inr ?s3"
    by (simp add: eval_defs)
  from pagination_buttons [OF c1 t] pagination_buttons [OF c3 t3] t pd r
  show ?thesis
    by (simp add: eval_defs)
qed

text \<open>
  C7. "Previous" never goes below page 1, but "Next" does where the filter keeps no row.
  After the search for "zz" in the rows Amy and Bob the widget shows page 1 of 0; "Next" is
  not disabled there, and a click sets the current page to \<open>min 2 0 = 0\<close>, outside every
  range of pages that starts at 1.
\<close>

theorem next_button_reaches_page_0:
  "totalPages no_number filter_scenario
       \<lparr>currentPage = Num 1, searchTerm = ''zz'', pageSize = Num 10, sortConfig = None\<rparr>
     = Inr (Num 0) \<and>
   \<not> next_disabled (Num 0)
       \<lparr>currentPage = Num 1, searchTerm = ''zz'', pageSize = Num 10, sortConfig = None\<rparr> \<and>
   dispatch no_number filter_scenario Next
       \<lparr>currentPage = Num 1, searchTerm = ''zz'', pageSize = Num 10, sortConfig = None\<rparr>
     = Inr \<lparr>currentPage = Num 0, searchTerm = ''zz'', pageSize = Num 10, sortConfig = None\<rparr>"
  by (simp add: eval_defs)

theorem next_button_reaches_page_0_witness:
  "run no_number filter_scenario [Next]
       \<lparr>currentPage = Num 1, searchTerm = ''zz'', pageSize = Num 10, sortConfig = None\<rparr>
     = Inr \<lparr>currentPage = Num 0, searchTerm = ''zz'', pageSize = Num 10, sortConfig = None\<rparr> \<and>
   num_lt (currentPage \<lparr>currentPage = Num 0, searchTerm = ''zz'', pageSize = Num 10,
                         sortConfig = None\<rparr>) (Num 1)"
  using next_button_reaches_page_0 by simp

section \<open>What the filter stage keeps\<close>

lemma mset_insert_sorted: "mset (insert_sorted cmp x ys) = add_mset x (mset ys)"
  by (induction ys) simp_all

lemma mset_array_sort: "mset (array_sort cmp xs) = mset xs"
  by (induction xs) (simp_all add: mset_insert_sorted)

lemma mset_sortedData: "mset (sortedData s2n p st) = mset (data p)"
  by (simp add: sortedData_def mset_array_sort)

lemma set_sortedData: "set (sortedData s2n p st) = set (data p)"
  by (metis mset_sortedData set_mset_mset)

lemma str_includes_iff: "str_includes s t \<longleftrightarrow> (\<exists>pre suf. s = pre @ t @ suf)"
proof (induction s)
  case Nil
  then show ?case by auto
next
  case (Cons c s)
  have here: "take (length t) (c # s) = t \<longleftrightarrow> (\<exists>suf. c # s = t @ suf)"
    by (metis append_eq_conv_conj append_take_drop_id)
  show ?case
  proof
    assume "str_includes (c # s) t"
    then consider "take (length t) (c # s) = t" | "str_includes s t" by auto
    then show "\<exists>pre suf. c # s = pre @ t @ suf"
    proof cases
      case 1
      with here obtain suf where "c # s = [] @ t @ suf" by auto
      then show ?thesis by blast
    next
      case 2
      with Cons.IH obtain pre suf where "s = pre @ t @ suf" by blast
      then have "c # s = (c # pre) @ t @ suf" by simp
      then show ?thesis by blast
    qed
  next
    assume "\<exists>pre suf. c # s = pre @ t @ suf"
    then obtain pre suf where eq: "c # s = pre @ t @ suf" by blast
    show "str_includes (c # s) t"
    proof (cases pre)
      case Nil
      with eq have "\<exists>suf. c # s = t @ suf" by simp
      with here have "take (length t) (c # s) = t" by simp
      then show ?thesis by simp
    next
      case (Cons d pre')
      with eq have "s = pre' @ t @ suf" by simp
      with Cons.IH show ?thesis by auto
    qed
  qed
qed

lemma array_some_True: "array_some f xs = Inr True \<Longrightarrow> \<exists>x \<in> set xs. f x = Inr True"
  by (induction xs) (auto split: sum.splits if_splits)

lemma array_some_False: "array_some f xs = Inr False \<Longrightarrow> \<forall>x \<in> set xs. f x = Inr False"
  by (induction xs) (auto split: sum.splits if_splits)

lemma array_some_total:
  "\<forall>x \<in> set xs. \<exists>b. f x = Inr b \<Longrightarrow> \<exists>b. array_some f xs = Inr b"
  by (induction xs) (auto split: sum.splits)

lemma array_filter_Inr:
  "array_filter f xs = Inr ys \<Longrightarrow> ys = filter (\<lambda>x. f x = Inr True) xs"
  by (induction xs arbitrary: ys) (auto split: sum.splits if_splits)

lemma array_filter_total:
  "\<forall>x \<in> set xs. \<exists>b. f x = Inr b \<Longrightarrow> \<exists>ys. array_filter f xs = Inr ys"
  by (induction xs) (auto split: sum.splits)

lemma some_column_spec:
  assumes "array_some (column_matches term r) cols = Inr b"
  shows "b = spec_row_kept cols term r"
proof (cases b)
  case True
  with assms have "array_some (column_matches term r) cols = Inr True" by simp
  from array_some_True [OF this]
  obtain c where "c \<in> set cols" "column_matches term r c = Inr True" by blast
  then have "spec_row_kept cols term r"
    by (auto simp: spec_row_kept_def column_matches_def split: sum.splits intro!: bexI [of _ c])
  with True show ?thesis by simp
next
  case False
  with assms have "array_some (column_matches term r) cols = Inr False" by simp
  from array_some_False [OF this]
  have "\<forall>c \<in> set cols. column_matches term r c = Inr False" .
  then have "\<not> spec_row_kept cols term r"
    by (auto simp: spec_row_kept_def column_matches_def split: sum.splits)
  with False show ?thesis by simp
qed

lemma filter_rows_spec:
  assumes "array_filter (\<lambda>r. array_some (column_matches term r) cols) xs = Inr ys"
  shows "ys = filter (spec_row_kept cols term) xs"
  using assms
proof (induction xs arbitrary: ys)
  case Nil
  then show ?case by simp
next
  case (Cons x xs)
  from Cons.prems obtain b zs where
    b: "array_some (column_matches term x) cols = Inr b" and
    zs: "array_filter (\<lambda>r. array_some (column_matches term r) cols) xs = Inr zs" and
    ys: "ys = (if b then x # zs else zs)"
    by (auto split: sum.splits)
  from b have "b = spec_row_kept cols term x" by (rule some_column_spec)
  moreover from zs have "zs = filter (spec_row_kept cols term) xs" by (rule Cons.IH)
  ultimately show ?case using ys by simp
qed

text \<open>A value has a text unless it is \<^verbatim>\<open>undefined\<close> or \<^verbatim>\<open>null\<close>.\<close>

lemma toString_total: "v \<noteq> JUndefined \<Longrightarrow> v \<noteq> JNull \<Longrightarrow> \<exists>s. toString v = Inr s"
  by (cases v) simp_all

lemma filter_rows_total:
  assumes "\<forall>r \<in> set xs. \<forall>c \<in> set cols.
             get_field r (accessor c) \<noteq> JUndefined \<and> get_field r (accessor c) \<noteq> JNull"
  shows "\<exists>ys. array_filter (\<lambda>r. array_some (column_matches term r) cols) xs = Inr ys"
proof (rule array_filter_total, rule ballI)
  fix r assume r: "r \<in> set xs"
  have "\<forall>c \<in> set cols. \<exists>b. column_matches term r c = Inr b"
  proof
    fix c assume "c \<in> set cols"
    with r assms obtain s where "toString (get_field r (accessor c)) = Inr s"
      using toString_total by blast
    then show "\<exists>b. column_matches term r c = Inr b" by (simp add: column_matches_def)
  qed
  then show "\<exists>b. array_some (column_matches term r) cols = Inr b"
    by (rule array_some_total)
qed

text \<open>
  C3. With filtering enabled and a non-empty search term: whenever the filter stage
  returns, its result is the sorted sequence restricted, in the same order, to the rows
  for which some column's value, as lowercased text, contains the lowercased search term;
  so a row of the sorted sequence is in the result iff it has such a column. The stage
  does return when no row lacks a column's field (or holds \<^verbatim>\<open>null\<close> there). Containment
  is substring containment. With the search term "a" over the rows Amy and Bob the result
  is the row Amy.
\<close>

theorem filteredData_keeps_matching_rows:
  assumes "filtering p" and "searchTerm st \<noteq> []"
  shows "(\<forall>fd. filteredData s2n p st = Inr fd \<longrightarrow>
            fd = filter (spec_row_kept (columns p) (searchTerm st)) (sortedData s2n p st) \<and>
            (\<forall>r \<in> set (sortedData s2n p st).
               r \<in> set fd \<longleftrightarrow> spec_row_kept (columns p) (searchTerm st) r)) \<and>
         ((\<forall>r \<in> set (data p). \<forall>c \<in> set (columns p).
              get_field r (accessor c) \<noteq> JUndefined \<and> get_field r (accessor c) \<noteq> JNull)
            \<longrightarrow> filteredData s2n p st
                  = Inr (filter (spec_row_kept (columns p) (searchTerm st))
                           (sortedData s2n p st))) \<and>
         (\<forall>s t. str_includes s t \<longleftrightarrow> (\<exists>pre suf. s = pre @ t @ suf)) \<and>
         filteredData s2n filter_scenario (handleSearch ''a'' (initial_state filter_scenario))
           = Inr [named ''Amy'']"
proof (intro conjI allI impI)
  fix fd assume fd: "filteredData s2n p st = Inr fd"
  with assms have
    "array_filter (\<lambda>r. array_some (column_matches (searchTerm st) r) (columns p))
       (sortedData s2n p st) = Inr fd"
    by (simp add: filteredData_def)
  then show eq: "fd = filter (spec_row_kept (columns p) (searchTerm st)) (sortedData s2n p st)"
    by (rule filter_rows_spec)
  show "\<forall>r \<in> set (sortedData s2n p st).
          r \<in> set fd \<longleftrightarrow> spec_row_kept (columns p) (searchTerm st) r"
    by (simp add: eq)
next
  assume present: "\<forall>r \<in> set (data p). \<forall>c \<in> set (columns p).
     get_field r (accessor c) \<noteq> JUndefined \<and> get_field r (accessor c) \<noteq> JNull"
  then have "\<forall>r \<in> set (sortedData s2n p st). \<forall>c \<in> set (columns p).
     get_field r (accessor c) \<noteq> JUndefined \<and> get_field r (accessor c) \<noteq> JNull"
    by (simp add: set_sortedData)
  then obtain ys where ys:
    "array_filter (\<lambda>r. array_some (column_matches (searchTerm st) r) (columns p))
       (sortedData s2n p st) = Inr ys"
    using filter_rows_total by blast
  then have "ys = filter (spec_row_kept (columns p) (searchTerm st)) (sortedData s2n p st)"
    by (rule filter_rows_spec)
  with ys assms show "filteredData s2n p st
      = Inr (filter (spec_row_kept (columns p) (searchTerm st)) (sortedData s2n p st))"
    by (simp add: filteredData_def)
next
  fix s t show "str_includes s t \<longleftrightarrow> (\<exists>pre suf. s = pre @ t @ suf)"
    by (rule str_includes_iff)
next
  show "filteredData s2n filter_scenario (handleSearch ''a'' (initial_state filter_scenario))
           = Inr [named ''Amy'']"
    by (simp add: eval_defs)
qed

theorem filteredData_keeps_matching_rows_witness:
  "filteredData no_number filter_scenario (handleSearch ''o'' (initial_state filter_scenario))
     = Inr [named ''Bob''] \<and>
   filter (spec_row_kept [name_column] ''o'') [named ''Amy'', named ''Bob''] = [named ''Bob'']"
proof -
  let ?st = "handleSearch ''o'' (initial_state filter_scenario)"
  have f: "filtering filter_scenario" by (simp add: filter_scenario_def)
  have s: "searchTerm ?st \<noteq> []" by (simp add: handleSearch_def)
  have present: "\<forall>r \<in> set (data filter_scenario). \<forall>c \<in> set (columns filter_scenario).
     get_field r (accessor c) \<noteq> JUndefined \<and> get_field r (accessor c) \<noteq> JNull"
    by (simp add: eval_defs)
  have run: "filteredData no_number filter_scenario ?st = Inr [named ''Bob'']"
    by (simp add: eval_defs)
  have cols: "columns filter_scenario = [name_column]" "searchTerm ?st = ''o''"
    "sortedData no_number filter_scenario ?st = [named ''Amy'', named ''Bob'']"
    by (simp_all add: eval_defs)
  note all = filteredData_keeps_matching_rows [OF f s, of no_number]
  from all [THEN conjunct2, THEN conjunct1] present
  have "filteredData no_number filter_scenario ?st
      = Inr (filter (spec_row_kept (columns filter_scenario) (searchTerm ?st))
               (sortedData no_number filter_scenario ?st))"
    by (rule mp)
  with run have "filter (spec_row_kept (columns filter_scenario) (searchTerm ?st))
      (sortedData no_number filter_scenario ?st) = [named ''Bob'']"
    by simp
  with run show ?thesis by (simp only: cols)
qed

text \<open>
  C2. A row without the field of a column: \<^verbatim>\<open>row[column.accessor]\<close> is \<^verbatim>\<open>undefined\<close>, and
  the call of \<^verbatim>\<open>toString\<close> on it throws. The filter stage over the one row \<^verbatim>\<open>{id: 1}\<close>,
  the column "name" and the search term "a" ends in a \<^verbatim>\<open>TypeError\<close>.
\<close>

theorem filteredData_missing_field_TypeError:
  "filteredData no_number (filter_scenario\<lparr>data := [[(''id'', JNumber (Num 1))]]\<rparr>)
     (handleSearch ''a'' (initial_state filter_scenario)) = Inl TypeError"
  by (simp add: eval_defs)

theorem filteredData_missing_field_TypeError_witness:
  "totalPages no_number (filter_scenario\<lparr>data := [[(''id'', JNumber (Num 1))]]\<rparr>)
     (handleSearch ''a'' (initial_state filter_scenario)) = Inl TypeError \<and>
   paginatedData no_number (filter_scenario\<lparr>data := [[(''id'', JNumber (Num 1))]]\<rparr>)
     (handleSearch ''a'' (initial_state filter_scenario)) = Inl TypeError"
  using filteredData_missing_field_TypeError
  by (simp add: totalPages_def paginatedData_def)

section \<open>The pages of the paginate stage\<close>

lemma array_slice_window:
  assumes "0 \<le> s" and "0 \<le> n"
  shows "array_slice xs (Num s) (Num (s + n)) = take (nat n) (drop (nat s) xs)"
proof (cases "s \<le> int (length xs)")
  case True
  with assms have "nat (min (s + n) (int (length xs))) - nat s
      = min (nat n) (length xs - nat s)"
    by (simp add: min_def) linarith
  with True assms show ?thesis
    by (simp add: array_slice_def min_def)
next
  case False
  with assms show ?thesis
    by (simp add: array_slice_def min_def)
qed

lemma length_array_slice: "length (array_slice xs s e) \<le> slice_index (length xs) e - slice_index (length xs) s"
  by (simp add: array_slice_def)

lemma slice_index_step:
  assumes "0 \<le> n"
  shows "int (slice_index len (num_add v (Num n))) - int (slice_index len v) \<le> n"
  using assms by (cases v) (auto simp: min_def max_def)

lemma length_array_slice_window:
  assumes "0 \<le> n"
  shows "int (length (array_slice xs v (num_add v (Num n)))) \<le> n"
proof -
  have "int (length (array_slice xs v (num_add v (Num n))))
      \<le> int (slice_index (length xs) (num_add v (Num n)) - slice_index (length xs) v)"
    using length_array_slice [of xs v "num_add v (Num n)"] by simp
  also have "\<dots> \<le> n"
    using slice_index_step [OF assms, of "length xs" v] assms by simp
  finally show ?thesis .
qed

lemma startIndex_Num:
  "currentPage st = Num c \<Longrightarrow> pageSize st = Num ps \<Longrightarrow> startIndex st = Num ((c - 1) * ps)"
  by (simp add: startIndex_def num_sub_def)

lemma concat_windows:
  "concat (map (\<lambda>c. take n (drop (nat ((c - 1) * int n)) xs)) [1..int m]) = take (m * n) xs"
proof (induction m)
  case 0
  then show ?case by simp
next
  case (Suc m)
  have "[1..int (Suc m)] = [1..int m] @ [int m + 1]"
    using upto_rec2 [of 1 "int (Suc m)"] by (simp add: add.commute)
  moreover have "nat (int m * int n) = m * n"
    by (simp add: nat_mult_distrib)
  moreover have "take (Suc m * n) xs = take (m * n) xs @ take n (drop (m * n) xs)"
    using take_add [of "m * n" n xs] by (simp add: add.commute)
  ultimately show ?case
    using Suc.IH by simp
qed

lemma ceil_quot_covers:
  assumes "0 < (ps :: int)" and "0 \<le> (n :: int)"
  shows "0 \<le> - ((- n) div ps)" and "n \<le> (- ((- n) div ps)) * ps"
    and "(- ((- n) div ps) - 1) * ps < n"
proof -
  define q where "q = (- n) div ps"
  define r where "r = (- n) mod ps"
  have d: "ps * q + r = - n" unfolding q_def r_def by (rule mult_div_mod_eq)
  have m: "0 \<le> r" "r < ps" using assms by (simp_all add: r_def)
  have e: "(- q) * ps = - (ps * q)" "(- q - 1) * ps = - (ps * q) - ps"
    by (simp_all add: algebra_simps)
  from assms have "q \<le> 0"
    by (simp add: q_def div_nonpos_pos_le0)
  then show "0 \<le> - ((- n) div ps)" by (simp add: q_def)
  from d m e show "n \<le> (- ((- n) div ps)) * ps" unfolding q_def [symmetric] by linarith
  from d m e show "(- ((- n) div ps) - 1) * ps < n"
    unfolding q_def [symmetric] by linarith
qed

lemma ceil_quot_ceiling:
  "d \<noteq> 0 \<Longrightarrow> ceil_quot n (Num d) = Num \<lceil>real_of_int n / real_of_int d\<rceil>"
  by (simp add: ceiling_divide_eq_div)

lemma paginatedData_window:
  assumes "pageSize st = Num ps" and "0 < ps" and "filteredData s2n p st = Inr fd"
    and "1 \<le> c"
  shows "paginatedData s2n p (st\<lparr>currentPage := Num c\<rparr>)
           = Inr (take (nat ps) (drop (nat ((c - 1) * ps)) fd))"
proof -
  have "startIndex (st\<lparr>currentPage := Num c\<rparr>) = Num ((c - 1) * ps)"
    using assms(1) by (simp add: startIndex_Num)
  moreover have "0 \<le> (c - 1) * ps" using assms(2,4) by simp
  ultimately show ?thesis
    using assms(1,2,3) array_slice_window [of "(c - 1) * ps" ps fd]
    by (simp add: paginatedData_def)
qed

lemma paginatedData_length:
  assumes "pageSize st = Num ps" and "0 < ps" and "filteredData s2n p st = Inr fd"
  shows "\<exists>pg. paginatedData s2n p (st\<lparr>currentPage := cp\<rparr>) = Inr pg \<and> int (length pg) \<le> ps"
  using assms length_array_slice_window [of ps fd "startIndex (st\<lparr>currentPage := cp\<rparr>)"]
  by (simp add: paginatedData_def)

lemma pages_cover:
  assumes "pageSize st = Num ps" and "0 < ps" and "filteredData s2n p st = Inr fd"
  shows "totalPages s2n p st = Inr (Num (- ((- int (length fd)) div ps)))"
    and "concat (map (page_rows s2n p st) [1..- ((- int (length fd)) div ps)]) = fd"
proof -
  let ?t = "- ((- int (length fd)) div ps)"
  show "totalPages s2n p st = Inr (Num ?t)"
    using assms by (simp add: totalPages_def)
  have t0: "0 \<le> ?t" and cover: "int (length fd) \<le> ?t * ps"
    using ceil_quot_covers [of ps "int (length fd)"] assms(2) by simp_all
  have nps: "int (nat ps) = ps" using assms(2) by simp
  have rows: "page_rows s2n p st c = take (nat ps) (drop (nat ((c - 1) * int (nat ps))) fd)"
    if "c \<in> set [1..?t]" for c
    using that paginatedData_window [OF assms, of c] by (simp only: nps) (simp add: page_rows_def)
  have "map (page_rows s2n p st) [1..?t]
      = map (\<lambda>c. take (nat ps) (drop (nat ((c - 1) * int (nat ps))) fd)) [1..?t]"
    by (rule map_cong) (simp_all only: rows)
  then have "concat (map (page_rows s2n p st) [1..?t])
      = concat (map (\<lambda>c. take (nat ps) (drop (nat ((c - 1) * int (nat ps))) fd)) [1..?t])"
    by (simp only:)
  also have "\<dots> = take (nat ?t * nat ps) fd"
    using concat_windows [of "nat ps" fd "nat ?t"] t0 by (simp only: int_nat_eq if_True)
  also have "\<dots> = fd"
  proof -
    have "int (nat ?t * nat ps) = ?t * ps" using t0 assms(2) by simp
    with cover have "length fd \<le> nat ?t * nat ps" by linarith
    then show ?thesis by simp
  qed
  finally show "concat (map (page_rows s2n p st) [1..?t]) = fd" .
qed

text \<open>
  C6. With a positive page size \<open>ps\<close> and the filtered rows \<open>fd\<close>: for every current page
  the paginate stage returns at most \<open>ps\<close> rows; for every page \<open>c\<close> from 1 on it returns the
  \<open>ps\<close> rows of \<open>fd\<close> from position \<open>(c - 1) * ps\<close>, or as many as there are; the number of
  pages is the ceiling of \<open>length fd / ps\<close>, and the pages 1 to that number, one after the
  other, are \<open>fd\<close>.
\<close>

theorem paginatedData_slices_cover:
  assumes "pageSize st = Num ps" and "0 < ps" and "filteredData s2n p st = Inr fd"
  shows "(\<forall>cp. \<exists>pg. paginatedData s2n p (st\<lparr>currentPage := cp\<rparr>) = Inr pg \<and>
                   int (length pg) \<le> ps) \<and>
         (\<forall>c. 1 \<le> c \<longrightarrow> paginatedData s2n p (st\<lparr>currentPage := Num c\<rparr>)
                   = Inr (take (nat ps) (drop (nat ((c - 1) * ps)) fd))) \<and>
         (\<exists>t. totalPages s2n p st = Inr (Num t) \<and>
              t = \<lceil>real (length fd) / real_of_int ps\<rceil> \<and>
              concat (map (page_rows s2n p st) [1..t]) = fd)"
proof (intro conjI allI impI)
  fix cp
  show "\<exists>pg. paginatedData s2n p (st\<lparr>currentPage := cp\<rparr>) = Inr pg \<and> int (length pg) \<le> ps"
    using assms by (rule paginatedData_length)
next
  fix c :: int assume "1 \<le> c"
  with assms show "paginatedData s2n p (st\<lparr>currentPage := Num c\<rparr>)
                   = Inr (take (nat ps) (drop (nat ((c - 1) * ps)) fd))"
    by (rule paginatedData_window)
next
  let ?t = "- ((- int (length fd)) div ps)"
  have "?t = \<lceil>real (length fd) / real_of_int ps\<rceil>"
    using ceiling_divide_eq_div [of "int (length fd)" ps, where ?'a = real] by simp
  with pages_cover [OF assms]
  show "\<exists>t. totalPages s2n p st = Inr (Num t) \<and>
              t = \<lceil>real (length fd) / real_of_int ps\<rceil> \<and>
              concat (map (page_rows s2n p st) [1..t]) = fd"
    by simp
qed

theorem paginatedData_slices_cover_witness:
  "paginatedData no_number page_scenario (initial_state page_scenario)
     = Inr [named ''a'', named ''b''] \<and>
   paginatedData no_number page_scenario ((initial_state page_scenario)\<lparr>currentPage := Num 2\<rparr>)
     = Inr [named ''c'', named ''d''] \<and>
   paginatedData no_number page_scenario ((initial_state page_scenario)\<lparr>currentPage := Num 3\<rparr>)
     = Inr [named ''e''] \<and>
   totalPages no_number page_scenario (initial_state page_scenario) = Inr (Num 3) \<and>
   concat (map (page_rows no_number page_scenario (initial_state page_scenario)) [1, 2, 3])
     = [named ''a'', named ''b'', named ''c'', named ''d'', named ''e'']"
proof -
  let ?st = "initial_state page_scenario"
  let ?fd = "[named ''a'', named ''b'', named ''c'', named ''d'', named ''e'']"
  have ps: "pageSize ?st = Num 2" and pos: "0 < (2 :: int)"
    by (simp_all add: eval_defs)
  have fd: "filteredData no_number page_scenario ?st = Inr ?fd"
    by (simp add: eval_defs)
  note all = paginatedData_slices_cover [OF ps pos fd]
  have st1: "?st\<lparr>currentPage := Num 1\<rparr> = ?st" by (simp add: initial_state_def)
  from all [THEN conjunct2, THEN conjunct1, rule_format, of 1]
  have p1: "paginatedData no_number page_scenario ?st = Inr [named ''a'', named ''b'']"
    by (simp add: st1)
  from all [THEN conjunct2, THEN conjunct1, rule_format, of 2]
  have p2: "paginatedData no_number page_scenario (?st\<lparr>currentPage := Num 2\<rparr>)
      = Inr [named ''c'', named ''d'']"
    by simp
  from all [THEN conjunct2, THEN conjunct1, rule_format, of 3]
  have p3: "paginatedData no_number page_scenario (?st\<lparr>currentPage := Num 3\<rparr>)
      = Inr [named ''e'']"
    by simp
  have t: "totalPages no_number page_scenario ?st = Inr (Num 3)"
    by (simp add: eval_defs)
  have "concat (map (page_rows no_number page_scenario ?st) [1, 2, 3]) = ?fd"
    using p1 p2 p3 by (simp add: page_rows_def st1)
  with p1 p2 p3 t show ?thesis by simp
qed

section \<open>Order and stability of the sort stage\<close>











lemma consistent_order_numbers:
  assumes "\<forall>r \<in> set rows. \<exists>n. get_field r k = JNumber n \<and> n \<noteq> NaN"
  shows "consistent_order s2n k rows"
  unfolding consistent_order_def
proof (intro ballI impI)
  fix a b c assume "a \<in> set rows" "b \<in> set rows" "c \<in> set rows"
  with assms obtain x y z where v:
    "get_field a k = JNumber x" "get_field b k = JNumber y" "get_field c k = JNumber z"
    and n: "x \<noteq> NaN" "y \<noteq> NaN" "z \<noteq> NaN"
    by blast
  assume "js_lt s2n (get_field a k) (get_field c k)"
  with v have "num_lt x z" by simp
  with n have "num_lt x y \<or> num_lt y z"
    by (cases x; cases y; cases z) auto
  with v show "js_lt s2n (get_field a k) (get_field b k) \<or>
               js_lt s2n (get_field b k) (get_field c k)"
    by simp
qed




subsection \<open>The stable sorted arrangement is unique\<close>






subsection \<open>The sorted rows under a consistent comparison\<close>


text \<open>A row without the key ties with every row, also with two rows of which one is
  before the other: the comparison is not consistent on such rows.\<close>

lemma gap_rows_not_consistent: "\<not> consistent_order s2n ''v'' gap_rows"
proof
  assume "consistent_order s2n ''v'' gap_rows"
  then have "js_lt s2n (get_field [(''v'', JNumber (Num 0))] ''v'')
                 (get_field [(''v'', JNumber (Num 1))] ''v'') \<longrightarrow>
             js_lt s2n (get_field [(''v'', JNumber (Num 0))] ''v'')
                 (get_field [(''id'', JNumber (Num 7))] ''v'') \<or>
             js_lt s2n (get_field [(''id'', JNumber (Num 7))] ''v'')
                 (get_field [(''v'', JNumber (Num 1))] ''v'')"
    unfolding consistent_order_def gap_rows_def by simp
  then show False by (simp add: get_field_def)
qed








section \<open>The current page and the number of pages\<close>

lemma filteredData_mset:
  assumes "filteredData s2n p st = Inr fd"
  shows "mset fd =
     (if \<not> filtering p \<or> searchTerm st = [] then mset (data p)
      else filter_mset (spec_row_kept (columns p) (searchTerm st)) (mset (data p)))"
proof (cases "\<not> filtering p \<or> searchTerm st = []")
  case True
  with assms have "fd = sortedData s2n p st" by (auto simp: filteredData_def)
  with True show ?thesis by (simp add: mset_sortedData)
next
  case False
  with assms have
    "array_filter (\<lambda>r. array_some (column_matches (searchTerm st) r) (columns p))
       (sortedData s2n p st) = Inr fd"
    by (simp add: filteredData_def)
  then have "fd = filter (spec_row_kept (columns p) (searchTerm st)) (sortedData s2n p st)"
    by (rule filter_rows_spec)
  then have "mset fd
      = filter_mset (spec_row_kept (columns p) (searchTerm st)) (mset (sortedData s2n p st))"
    by simp
  with False show ?thesis by (simp add: mset_sortedData)
qed

lemma filteredData_length_sort:
  assumes "filteredData s2n p st = Inr fd" and "filteredData s2n p st' = Inr fd'"
    and "searchTerm st' = searchTerm st"
  shows "length fd' = length fd"
proof -
  from assms have "mset fd' = mset fd"
    by (simp add: filteredData_mset)
  then show ?thesis by (rule mset_eq_length)
qed

lemma ceil_pages_pos:
  assumes "0 < (ps :: int)" and "0 < (n :: int)"
  shows "1 \<le> - ((- n) div ps)"
proof (rule ccontr)
  assume "\<not> 1 \<le> - ((- n) div ps)"
  then have "- ((- n) div ps) \<le> 0" by simp
  with assms(1) have "(- ((- n) div ps)) * ps \<le> 0"
    by (simp add: mult_nonpos_nonneg)
  moreover have "n \<le> (- ((- n) div ps)) * ps"
    using assms by (intro ceil_quot_covers) simp_all
  ultimately show False using assms(2) by simp
qed

lemma page_invariantI:
  assumes "pageSize st = Num ps" and "0 < ps" and "currentPage st = Num c"
    and "\<And>fd. filteredData s2n p st = Inr fd \<Longrightarrow>
           (if fd = [] then c = 0 \<or> c = 1
            else 1 \<le> c \<and> c \<le> - ((- int (length fd)) div ps))"
  shows "page_invariant s2n p st"
  unfolding page_invariant_def using assms by blast

lemma page_invariant_reset:
  assumes "pageSize st' = Num ps" and "0 < ps" and "currentPage st' = Num 1"
  shows "page_invariant s2n p st'"
proof (rule page_invariantI [OF assms])
  fix fd :: "row list"
  have "1 \<le> - ((- int (length fd)) div ps)" if "fd \<noteq> []"
    using assms(2) that by (intro ceil_pages_pos) simp_all
  then show "if fd = [] then (1 :: int) = 0 \<or> (1 :: int) = 1
        else 1 \<le> (1 :: int) \<and> 1 \<le> - ((- int (length fd)) div ps)"
    by simp
qed

lemma page_invariant_initial:
  assumes "positive_int (initial_pageSize (pagination p))"
  shows "page_invariant s2n p (initial_state p)"
proof -
  from assms obtain ps where ps: "initial_pageSize (pagination p) = Num ps" "0 < ps"
    by (auto simp: positive_int_def split: jsnum.splits)
  show ?thesis
    by (rule page_invariant_reset [of _ ps]) (simp_all add: initial_state_def ps)
qed

lemma page_invariant_sort:
  assumes inv: "page_invariant s2n p st" and r: "filteredData s2n p st = Inr fd"
    and same: "currentPage st' = currentPage st" "pageSize st' = pageSize st"
      "searchTerm st' = searchTerm st"
  shows "page_invariant s2n p st'"
proof -
  from inv obtain ps c where ps: "pageSize st = Num ps" "0 < ps" and c: "currentPage st = Num c"
    and b: "\<And>fd. filteredData s2n p st = Inr fd \<Longrightarrow>
           (if fd = [] then c = 0 \<or> c = 1
            else 1 \<le> c \<and> c \<le> - ((- int (length fd)) div ps))"
    unfolding page_invariant_def by blast
  show ?thesis
  proof (rule page_invariantI [of _ ps c])
    show "pageSize st' = Num ps" "0 < ps" "currentPage st' = Num c"
      using ps c same by simp_all
    fix fd' assume r': "filteredData s2n p st' = Inr fd'"
    from r r' same(3) have len: "length fd' = length fd" by (rule filteredData_length_sort)
    then have "fd' = [] \<longleftrightarrow> fd = []" by (metis length_0_conv)
    with b [OF r] len show "if fd' = [] then c = 0 \<or> c = 1
        else 1 \<le> c \<and> c \<le> - ((- int (length fd')) div ps)"
      by simp
  qed
qed

lemma page_invariant_previous:
  assumes inv: "page_invariant s2n p st"
  shows "page_invariant s2n p (press_previous st)"
proof -
  from inv obtain ps c where ps: "pageSize st = Num ps" "0 < ps" and c: "currentPage st = Num c"
    and b: "\<And>fd. filteredData s2n p st = Inr fd \<Longrightarrow>
           (if fd = [] then c = 0 \<or> c = 1
            else 1 \<le> c \<and> c \<le> - ((- int (length fd)) div ps))"
    unfolding page_invariant_def by blast
  have st': "press_previous st = st\<lparr>currentPage := Num (max (c - 1) 1)\<rparr>"
    using c by (rule press_previous_Num)
  show ?thesis
    unfolding st'
  proof (rule page_invariantI [of _ ps "max (c - 1) 1"])
    show "pageSize (st\<lparr>currentPage := Num (max (c - 1) 1)\<rparr>) = Num ps" "0 < ps"
      "currentPage (st\<lparr>currentPage := Num (max (c - 1) 1)\<rparr>) = Num (max (c - 1) 1)"
      using ps by simp_all
    fix fd assume "filteredData s2n p (st\<lparr>currentPage := Num (max (c - 1) 1)\<rparr>) = Inr fd"
    then have "filteredData s2n p st = Inr fd" by simp
    from b [OF this]
    show "if fd = [] then max (c - 1) 1 = 0 \<or> max (c - 1) 1 = 1
        else 1 \<le> max (c - 1) 1 \<and> max (c - 1) 1 \<le> - ((- int (length fd)) div ps)"
      by (auto simp: max_def split: if_splits)
  qed
qed

lemma page_invariant_next:
  assumes inv: "page_invariant s2n p st" and tp: "totalPages s2n p st = Inr tp"
  shows "page_invariant s2n p (press_next tp st)"
proof -
  from inv obtain ps c where ps: "pageSize st = Num ps" "0 < ps" and c: "currentPage st = Num c"
    and b: "\<And>fd. filteredData s2n p st = Inr fd \<Longrightarrow>
           (if fd = [] then c = 0 \<or> c = 1
            else 1 \<le> c \<and> c \<le> - ((- int (length fd)) div ps))"
    unfolding page_invariant_def by blast
  from tp obtain fd where fd: "filteredData s2n p st = Inr fd"
    and tp': "tp = Num (- ((- int (length fd)) div ps))"
    using ps by (auto simp: totalPages_def split: sum.splits)
  define t where "t = - ((- int (length fd)) div ps)"
  define c' where "c' = (if c = t then c else min (c + 1) t)"
  have pn: "press_next (Num t) st = (if c = t then st else st\<lparr>currentPage := Num (min (c + 1) t)\<rparr>)"
    using c by (rule press_next_Num)
  have tpt: "tp = Num t" by (simp add: tp' t_def)
  have st': "press_next tp st = st\<lparr>currentPage := Num c'\<rparr>"
  proof (cases "c = t")
    case True
    with pn have "press_next (Num t) st = st" by simp
    moreover from True c have "st\<lparr>currentPage := Num c'\<rparr> = st" by (simp add: c'_def)
    ultimately show ?thesis by (simp only: tpt)
  next
    case False
    with pn show ?thesis by (simp only: tpt c'_def if_False)
  qed
  have t0: "fd = [] \<Longrightarrow> t = 0" by (simp add: t_def)
  show ?thesis
    unfolding st'
  proof (rule page_invariantI [of _ ps c'])
    show "pageSize (st\<lparr>currentPage := Num c'\<rparr>) = Num ps" "0 < ps"
      "currentPage (st\<lparr>currentPage := Num c'\<rparr>) = Num c'"
      using ps by simp_all
    fix fd' assume "filteredData s2n p (st\<lparr>currentPage := Num c'\<rparr>) = Inr fd'"
    with fd have same: "fd' = fd" by simp
    from b [OF fd] t0
    show "if fd' = [] then c' = 0 \<or> c' = 1
        else 1 \<le> c' \<and> c' \<le> - ((- int (length fd')) div ps)"
      unfolding same c'_def t_def [symmetric]
      by (auto simp: min_def split: if_splits)
  qed
qed

lemma page_invariant_dispatch:
  assumes inv: "page_invariant s2n p st" and wf: "wf_event ev"
    and d: "dispatch s2n p ev st = Inr st'"
  shows "page_invariant s2n p st'"
proof -
  from d obtain tp where tp: "totalPages s2n p st = Inr tp"
    by (auto simp: dispatch_def split: sum.splits)
  then obtain fd where fd: "filteredData s2n p st = Inr fd"
    by (auto simp: totalPages_def split: sum.splits)
  from inv obtain ps c where ps: "pageSize st = Num ps" "0 < ps" and c: "currentPage st = Num c"
    unfolding page_invariant_def by blast
  from d tp have st': "st' = (case ev of
            Search v \<Rightarrow> if filtering p then handleSearch v st else st
          | PageSizeChange n \<Rightarrow> if filtering p then handlePageSizeChange n st else st
          | HeaderClick i \<Rightarrow>
              if i < length (columns p) then header_click p (columns p ! i) st else st
          | Previous \<Rightarrow> press_previous st
          | Next \<Rightarrow> press_next tp st)"
    by (simp add: dispatch_def)
  show ?thesis
  proof (cases ev)
    case (Search v)
    show ?thesis
    proof (cases "filtering p")
      case True
      with st' Search have e: "st' = handleSearch v st" by simp
      have "pageSize st' = Num ps" "currentPage st' = Num 1"
        using ps by (simp_all add: e handleSearch_def)
      with ps(2) show ?thesis by (simp add: page_invariant_reset)
    next
      case False
      with st' Search have "st' = st" by simp
      with inv show ?thesis by simp
    qed
  next
    case (PageSizeChange n)
    show ?thesis
    proof (cases "filtering p")
      case True
      with st' PageSizeChange have e: "st' = handlePageSizeChange n st" by simp
      from wf PageSizeChange obtain k where k: "n = Num k" "0 < k"
        by (auto simp: wf_event_def positive_int_def split: jsnum.splits)
      have "pageSize st' = Num k" "currentPage st' = Num 1"
        by (simp_all add: e k handlePageSizeChange_def)
      with k(2) show ?thesis by (simp add: page_invariant_reset)
    next
      case False
      with st' PageSizeChange have "st' = st" by simp
      with inv show ?thesis by simp
    qed
  next
    case (HeaderClick i)
    with st' have "currentPage st' = currentPage st" "pageSize st' = pageSize st"
      "searchTerm st' = searchTerm st"
      by (simp_all add: header_click_def handleSort_def)
    with inv fd show ?thesis by (rule page_invariant_sort)
  next
    case Previous
    with st' have "st' = press_previous st" by simp
    with inv show ?thesis by (simp add: page_invariant_previous)
  next
    case Next
    with st' have "st' = press_next tp st" by simp
    with inv tp show ?thesis by (simp add: page_invariant_next)
  qed
qed

lemma page_invariant_run:
  assumes "page_invariant s2n p st" and "\<forall>ev \<in> set evs. wf_event ev"
    and "run s2n p evs st = Inr st'"
  shows "page_invariant s2n p st'"
  using assms
proof (induction evs arbitrary: st)
  case Nil
  then show ?case by simp
next
  case (Cons ev evs)
  from Cons.prems(3) obtain st1 where
    d: "dispatch s2n p ev st = Inr st1" and r: "run s2n p evs st1 = Inr st'"
    by (auto split: sum.splits)
  from Cons.prems(2) have wf: "wf_event ev" and wfs: "\<forall>ev \<in> set evs. wf_event ev"
    by simp_all
  from Cons.prems(1) wf d have "page_invariant s2n p st1"
    by (rule page_invariant_dispatch)
  from this wfs r show ?case by (rule Cons.IH)
qed

text \<open>
  C1. As the code has it: let the initial page size and the page size of every page size
  event be positive integers, let the state be reached from the initial state by events
  of the widget, and let its filter stage return the rows \<open>fd\<close>. Then the page size is a
  positive integer \<open>ps\<close>, the number of pages is the ceiling of \<open>length fd / ps\<close>, which is 0
  when there is no filtered row, and whenever there is a filtered row the number of pages
  is at least 1 and the current page lies between 1 and the number of pages.
\<close>

theorem currentPage_within_totalPages:
  assumes "positive_int (initial_pageSize (pagination p))"
    and "\<forall>ev \<in> set evs. wf_event ev"
    and "run s2n p evs (initial_state p) = Inr st"
    and "filteredData s2n p st = Inr fd"
  shows "\<exists>ps c. pageSize st = Num ps \<and> 0 < ps \<and> currentPage st = Num c \<and>
           totalPages s2n p st = Inr (Num \<lceil>real (length fd) / real_of_int ps\<rceil>) \<and>
           (fd = [] \<longrightarrow> \<lceil>real (length fd) / real_of_int ps\<rceil> = 0) \<and>
           (fd \<noteq> [] \<longrightarrow> 1 \<le> \<lceil>real (length fd) / real_of_int ps\<rceil> \<and>
                        1 \<le> c \<and> c \<le> \<lceil>real (length fd) / real_of_int ps\<rceil>)"
proof -
  have "page_invariant s2n p (initial_state p)"
    using assms(1) by (rule page_invariant_initial)
  from this assms(2,3) have "page_invariant s2n p st"
    by (rule page_invariant_run)
  then obtain ps c where ps: "pageSize st = Num ps" "0 < ps" and c: "currentPage st = Num c"
    and b: "\<And>fd. filteredData s2n p st = Inr fd \<Longrightarrow>
           (if fd = [] then c = 0 \<or> c = 1
            else 1 \<le> c \<and> c \<le> - ((- int (length fd)) div ps))"
    unfolding page_invariant_def by blast
  define t where "t = - ((- int (length fd)) div ps)"
  have ceil: "\<lceil>real (length fd) / real_of_int ps\<rceil> = t"
    using ceiling_divide_eq_div [of "int (length fd)" ps, where ?'a = real]
    by (simp add: t_def)
  have tp: "totalPages s2n p st = Inr (Num t)"
    using assms(4) ps by (simp add: totalPages_def t_def)
  have empty: "t = 0" if "fd = []" using that by (simp add: t_def)
  have some: "1 \<le> t \<and> 1 \<le> c \<and> c \<le> t" if "fd \<noteq> []"
  proof -
    from that have "0 < int (length fd)" by simp
    with ps(2) have "1 \<le> t" unfolding t_def by (rule ceil_pages_pos)
    moreover from b [OF assms(4)] that have "1 \<le> c \<and> c \<le> t" by (simp add: t_def)
    ultimately show ?thesis by simp
  qed
  from ps c tp empty some
  have "pageSize st = Num ps \<and> 0 < ps \<and> currentPage st = Num c \<and>
           totalPages s2n p st = Inr (Num \<lceil>real (length fd) / real_of_int ps\<rceil>) \<and>
           (fd = [] \<longrightarrow> \<lceil>real (length fd) / real_of_int ps\<rceil> = 0) \<and>
           (fd \<noteq> [] \<longrightarrow> 1 \<le> \<lceil>real (length fd) / real_of_int ps\<rceil> \<and>
                        1 \<le> c \<and> c \<le> \<lceil>real (length fd) / real_of_int ps\<rceil>)"
    unfolding ceil by blast
  then show ?thesis by blast
qed

text \<open>Two clicks on "Next" in the scenario of five rows and page size 2 lead to page 3
  of 3.\<close>

theorem currentPage_within_totalPages_witness:
  "run no_number page_scenario [Next, Next] (initial_state page_scenario)
     = Inr ((initial_state page_scenario)\<lparr>currentPage := Num 3\<rparr>) \<and>
   (\<exists>c t. currentPage ((initial_state page_scenario)\<lparr>currentPage := Num 3\<rparr>) = Num c \<and>
       totalPages no_number page_scenario ((initial_state page_scenario)\<lparr>currentPage := Num 3\<rparr>)
         = Inr (Num t) \<and> 1 \<le> c \<and> c \<le> t)"
proof -
  let ?s3 = "(initial_state page_scenario)\<lparr>currentPage := Num 3\<rparr>"
  let ?fd = "[named ''a'', named ''b'', named ''c'', named ''d'', named ''e'']"
  have init: "positive_int (initial_pageSize (pagination page_scenario))"
    by (simp add: positive_int_def initial_pageSize_def falsy_num_def page_scenario_def)
  have wf: "\<forall>ev \<in> set [Next, Next]. wf_event ev"
    by (simp add: wf_event_def)
  have r: "run no_number page_scenario [Next, Next] (initial_state page_scenario) = Inr ?s3"
    by (simp add: eval_defs)
  have fd: "filteredData no_number page_scenario ?s3 = Inr ?fd"
    by (simp add: eval_defs)
  from currentPage_within_totalPages [OF init wf r fd]
  obtain ps c where "currentPage ?s3 = Num c"
    and "totalPages no_number page_scenario ?s3 = Inr (Num \<lceil>real (length ?fd) / real_of_int ps\<rceil>)"
    and "1 \<le> c \<and> c \<le> \<lceil>real (length ?fd) / real_of_int ps\<rceil>"
    by auto
  then have "\<exists>c t. currentPage ?s3 = Num c \<and>
       totalPages no_number page_scenario ?s3 = Inr (Num t) \<and> 1 \<le> c \<and> c \<le> t"
    by blast
  with r show ?thesis by (rule conjI)
qed

text \<open>
  C1. As it is stated, the claim fails where the filter keeps no row. After the search
  for "zz" in the rows Amy and Bob the number of pages is 0, not 1, with the current page
  1; "Next" is then enabled and leads to page 0.
\<close>

theorem currentPage_within_totalPages_counterexample:
  "run no_number filter_scenario [Search ''zz''] (initial_state filter_scenario)
     = Inr \<lparr>currentPage = Num 1, searchTerm = ''zz'', pageSize = Num 10, sortConfig = None\<rparr> \<and>
   totalPages no_number filter_scenario
       \<lparr>currentPage = Num 1, searchTerm = ''zz'', pageSize = Num 10, sortConfig = None\<rparr>
     = Inr (Num 0) \<and>
   run no_number filter_scenario [Search ''zz'', Next] (initial_state filter_scenario)
     = Inr \<lparr>currentPage = Num 0, searchTerm = ''zz'', pageSize = Num 10, sortConfig = None\<rparr> \<and>
   totalPages no_number filter_scenario
       \<lparr>currentPage = Num 0, searchTerm = ''zz'', pageSize = Num 10, sortConfig = None\<rparr>
     = Inr (Num 0)"
  by (simp add: eval_defs)

end
